theory Spec2Isabelle
  imports Main
begin

section \<open>The LRU cache of \<open>LRUCache.h\<close>\<close>

text \<open>
  The class keeps a doubly linked list \<open>cache_items\<close> of (key, value) pairs, most recently
  used first, and a hash map \<open>cacheMap\<close> from each key to the list iterator of its pair.
  A list iterator of the standard library is the address of a list node: it stays valid
  while other nodes are moved, inserted or erased. The model keeps that aliasing: a node is
  the pair together with its address, and the map stores addresses.

  Using an iterator whose node is not in the list, and stepping back from the end of an empty
  list, are undefined behaviour in the source; here they are the result \<open>None\<close>.
  \<open>size_t\<close> values are natural numbers: the code only compares them. The members
  \<open>capacity_\<close> and \<open>cache_items_\<close> are the fields \<open>capacity\<close> and \<open>cache_items\<close>.
\<close>

subsection \<open>List nodes and the list operations used by the class\<close>

type_synonym addr = nat

type_synonym ('k, 'v) node = "addr \<times> 'k \<times> 'v"

definition node_addr :: "('k, 'v) node \<Rightarrow> addr" where
  "node_addr n = fst n"

definition first :: "('k, 'v) node \<Rightarrow> 'k" where
  "first n = fst (snd n)"

definition second :: "('k, 'v) node \<Rightarrow> 'v" where
  "second n = snd (snd n)"

text \<open>Dereferencing an iterator: the node at that address, if it is in the list.\<close>

definition deref :: "addr \<Rightarrow> ('k, 'v) node list \<Rightarrow> ('k, 'v) node option" where
  "deref it xs = find (\<lambda>n. node_addr n = it) xs"

text \<open>The allocator: a new node gets an address that no node of the list has.\<close>

definition new_node :: "('k, 'v) node list \<Rightarrow> addr" where
  "new_node xs = fold max (map node_addr xs) 0 + 1"

definition emplace_front :: "'k \<Rightarrow> 'v \<Rightarrow> ('k, 'v) node list \<Rightarrow> ('k, 'v) node list" where
  "emplace_front key val xs = (new_node xs, key, val) # xs"

text \<open>\<open>xs.splice(xs.begin(), xs, it)\<close>: the node of \<open>it\<close> is relinked at the front.\<close>

definition splice_begin :: "addr \<Rightarrow> ('k, 'v) node list \<Rightarrow> ('k, 'v) node list option" where
  "splice_begin it xs =
     (case deref it xs of
        None \<Rightarrow> None
      | Some n \<Rightarrow> Some (n # filter (\<lambda>m. node_addr m \<noteq> it) xs))"

text \<open>\<open>it->second = val\<close>: the value of the node is overwritten in place.\<close>

definition assign_second :: "addr \<Rightarrow> 'v \<Rightarrow> ('k, 'v) node list \<Rightarrow> ('k, 'v) node list option" where
  "assign_second it val xs =
     (case deref it xs of
        None \<Rightarrow> None
      | Some n \<Rightarrow> Some (map (\<lambda>m. if node_addr m = it then (node_addr m, first m, val) else m) xs))"

definition erase :: "addr \<Rightarrow> ('k, 'v) node list \<Rightarrow> ('k, 'v) node list option" where
  "erase it xs =
     (case deref it xs of
        None \<Rightarrow> None
      | Some n \<Rightarrow> Some (filter (\<lambda>m. node_addr m \<noteq> it) xs))"

text \<open>\<open>--xs.end()\<close>: the last node; undefined on an empty list.\<close>

definition prev_end :: "('k, 'v) node list \<Rightarrow> ('k, 'v) node option" where
  "prev_end xs = (if xs = [] then None else Some (last xs))"

definition pop_back :: "('k, 'v) node list \<Rightarrow> ('k, 'v) node list option" where
  "pop_back xs = (if xs = [] then None else Some (butlast xs))"

subsection \<open>The class\<close>

record ('k, 'v) LRUCache =
  capacity :: nat
  cache_items :: "('k, 'v) node list"
  cacheMap :: "'k \<rightharpoonup> addr"

text \<open>The constructor stores the capacity as given; list and map start empty.\<close>

definition new_LRUCache :: "nat \<Rightarrow> ('k, 'v) LRUCache" where
  "new_LRUCache cap = \<lparr>capacity = cap, cache_items = [], cacheMap = Map.empty\<rparr>"

text \<open>
  \<open>bool get(const Key& key, Value& value)\<close>: the result is the returned flag and the
  content of the caller's variable afterwards, which a miss leaves as it was.
\<close>

definition get :: "'k \<Rightarrow> 'v \<Rightarrow> ('k, 'v) LRUCache \<Rightarrow> ((bool \<times> 'v) \<times> ('k, 'v) LRUCache) option" where
  "get key val c =
     (case cacheMap c key of
        None \<Rightarrow> Some ((False, val), c)
      | Some it \<Rightarrow>
          (case splice_begin it (cache_items c) of
             None \<Rightarrow> None
           | Some xs \<Rightarrow>
               (case deref it xs of
                  None \<Rightarrow> None
                | Some n \<Rightarrow> Some ((True, second n), c\<lparr>cache_items := xs\<rparr>))))"

text \<open>The second half of \<open>put\<close>: the eviction when the map has grown over the capacity.\<close>

definition evict_if_over :: "('k, 'v) LRUCache \<Rightarrow> ('k, 'v) LRUCache option" where
  "evict_if_over c =
     (if card (dom (cacheMap c)) > capacity c then
        (case prev_end (cache_items c) of
           None \<Rightarrow> None
         | Some lru \<Rightarrow>
             (case pop_back (cache_items c) of
                None \<Rightarrow> None
              | Some xs \<Rightarrow> Some (c\<lparr>cache_items := xs, cacheMap := (cacheMap c)(first lru := None)\<rparr>)))
      else Some c)"

text \<open>The insertion of a new pair at the front, with its map entry.\<close>

definition insert_front :: "'k \<Rightarrow> 'v \<Rightarrow> ('k, 'v) LRUCache \<Rightarrow> ('k, 'v) LRUCache" where
  "insert_front key val c =
     (let xs = emplace_front key val (cache_items c)
      in c\<lparr>cache_items := xs, cacheMap := (cacheMap c)(key \<mapsto> node_addr (hd xs))\<rparr>)"

definition put :: "'k \<Rightarrow> 'v \<Rightarrow> ('k, 'v) LRUCache \<Rightarrow> ('k, 'v) LRUCache option" where
  "put key val c =
     (case cacheMap c key of
        Some it \<Rightarrow>
          (case assign_second it val (cache_items c) of
             None \<Rightarrow> None
           | Some xs \<Rightarrow>
               (case splice_begin it xs of
                  None \<Rightarrow> None
                | Some ys \<Rightarrow> Some (c\<lparr>cache_items := ys\<rparr>)))
      | None \<Rightarrow> evict_if_over (insert_front key val c))"

definition remove :: "'k \<Rightarrow> ('k, 'v) LRUCache \<Rightarrow> ('k, 'v) LRUCache option" where
  "remove key c =
     (case cacheMap c key of
        None \<Rightarrow> Some c
      | Some it \<Rightarrow>
          (case erase it (cache_items c) of
             None \<Rightarrow> None
           | Some xs \<Rightarrow> Some (c\<lparr>cache_items := xs, cacheMap := (cacheMap c)(key := None)\<rparr>)))"

definition size_cache :: "('k, 'v) LRUCache \<Rightarrow> nat" where
  "size_cache c = card (dom (cacheMap c))"

subsection \<open>Sequences of calls\<close>

datatype ('k, 'v) call = Get 'k 'v | Put 'k 'v | Remove 'k

fun step :: "('k, 'v) call \<Rightarrow> ('k, 'v) LRUCache \<Rightarrow> ('k, 'v) LRUCache option" where
  "step (Get key val) c = map_option snd (get key val c)"
| "step (Put key val) c = put key val c"
| "step (Remove key) c = remove key c"

fun exec :: "('k, 'v) call list \<Rightarrow> ('k, 'v) LRUCache \<Rightarrow> ('k, 'v) LRUCache option" where
  "exec [] c = Some c"
| "exec (x # xs) c = (case step x c of None \<Rightarrow> None | Some c' \<Rightarrow> exec xs c')"

text \<open>The value of the latest \<open>put\<close> of a key in a sequence of calls.\<close>

fun last_put :: "'k \<Rightarrow> ('k, 'v) call list \<Rightarrow> 'v option" where
  "last_put key [] = None"
| "last_put key (Put k v # xs) =
     (case last_put key xs of None \<Rightarrow> (if k = key then Some v else None) | Some w \<Rightarrow> Some w)"
| "last_put key (x # xs) = last_put key xs"

text \<open>
  A call uses a key when it is a \<open>get\<close> or a \<open>put\<close> of that key. \<open>last_use key calls\<close> is the
  position, counted from 1, of the latest call that uses the key, and 0 when there is none.
\<close>

fun uses :: "'k \<Rightarrow> ('k, 'v) call \<Rightarrow> bool" where
  "uses key (Get k v) = (k = key)"
| "uses key (Put k v) = (k = key)"
| "uses key (Remove k) = False"

fun last_use :: "'k \<Rightarrow> ('k, 'v) call list \<Rightarrow> nat" where
  "last_use key [] = 0"
| "last_use key (x # xs) =
     (case last_use key xs of
        0 \<Rightarrow> (if uses key x then 1 else 0)
      | Suc n \<Rightarrow> Suc (Suc n))"

text \<open>The list is in recency order: each entry was used later than all entries behind it.\<close>

definition recency_ordered :: "('k, 'v) call list \<Rightarrow> ('k, 'v) node list \<Rightarrow> bool" where
  "recency_ordered calls xs =
     sorted_wrt (\<lambda>n n'. last_use (first n') calls < last_use (first n) calls) xs"

subsection \<open>The representation invariant\<close>

text \<open>
  Node addresses are distinct, keys are distinct, and the map holds exactly the pairs
  (key, address) of the nodes of the list.
\<close>

definition rep_inv :: "('k, 'v) LRUCache \<Rightarrow> bool" where
  "rep_inv c \<longleftrightarrow>
     distinct (map node_addr (cache_items c)) \<and>
     distinct (map first (cache_items c)) \<and>
     (\<forall>k a. cacheMap c k = Some a \<longleftrightarrow> (\<exists>v. (a, k, v) \<in> set (cache_items c)))"

section \<open>Facts about the list operations and the invariant\<close>

lemma fold_max_ge: "(b::nat) \<le> fold max ys b"
  by (induction ys arbitrary: b) (auto intro: order_trans [OF max.cobounded2])

lemma fold_max_mem: "(x::nat) \<in> set ys \<Longrightarrow> x \<le> fold max ys b"
proof (induction ys arbitrary: b)
  case Nil
  then show ?case by simp
next
  case (Cons y ys)
  show ?case
  proof (cases "x = y")
    case True
    have "y \<le> max y b" by simp
    also have "\<dots> \<le> fold max ys (max y b)" by (rule fold_max_ge)
    finally show ?thesis using True by simp
  next
    case False
    with Cons show ?thesis by simp
  qed
qed

lemma new_node_fresh: "n \<in> set xs \<Longrightarrow> node_addr n < new_node xs"
  unfolding new_node_def using fold_max_mem [of "node_addr n" "map node_addr xs" 0]
  by simp

lemma new_node_notin: "new_node xs \<notin> node_addr ` set xs"
  using new_node_fresh by fastforce

lemma deref_SomeD: "deref it xs = Some n \<Longrightarrow> n \<in> set xs \<and> node_addr n = it"
  unfolding deref_def by (auto simp: find_Some_iff)

lemma deref_distinct:
  "distinct (map node_addr xs) \<Longrightarrow> (a, k, v) \<in> set xs \<Longrightarrow> deref a xs = Some (a, k, v)"
  unfolding deref_def
  by (induction xs) (auto simp: node_addr_def rev_image_eqI)

lemma deref_Cons_same: "deref a ((a, k, v) # xs) = Some (a, k, v)"
  by (simp add: deref_def node_addr_def)

lemma inv_new: "rep_inv (new_LRUCache cap)"
  by (simp add: rep_inv_def new_LRUCache_def)

lemma inv_keys: "rep_inv c \<Longrightarrow> dom (cacheMap c) = first ` set (cache_items c)"
  unfolding rep_inv_def first_def by (auto simp: dom_def image_iff) force+

lemma inv_card: "rep_inv c \<Longrightarrow> card (dom (cacheMap c)) = length (cache_items c)"
  using inv_keys [of c] distinct_card [of "map first (cache_items c)"]
  by (simp add: rep_inv_def)

lemma inv_absent: "rep_inv c \<Longrightarrow> cacheMap c key = None \<Longrightarrow> key \<notin> first ` set (cache_items c)"
  using inv_keys [of c] by (metis domIff)

lemma node_sel [simp]:
  "node_addr (a, k, v) = a" "first (a, k, v) = k" "second (a, k, v) = v"
  by (simp_all add: node_addr_def first_def second_def)

lemma inv_move:
  assumes "rep_inv c" "(a, k, v) \<in> set (cache_items c)"
  shows "rep_inv (c\<lparr>cache_items := (a, k, v') # filter (\<lambda>m. node_addr m \<noteq> a) (cache_items c)\<rparr>)"
proof -
  let ?xs = "cache_items c"
  have da: "distinct (map node_addr ?xs)" and dk: "distinct (map first ?xs)"
    and m: "\<And>k a. cacheMap c k = Some a \<longleftrightarrow> (\<exists>v. (a, k, v) \<in> set ?xs)"
    using assms(1) by (auto simp: rep_inv_def)
  have same_key: "\<And>b w. (b, k, w) \<in> set ?xs \<Longrightarrow> b = a"
    using m assms(2) by (metis option.inject)
  have same_addr: "\<And>k' w. (a, k', w) \<in> set ?xs \<Longrightarrow> k' = k \<and> w = v"
    using da assms(2) deref_distinct by (metis Pair_inject option.inject)
  have "distinct (map node_addr (filter (\<lambda>m. node_addr m \<noteq> a) ?xs))"
    using da by (simp add: distinct_map_filter)
  moreover have "distinct (map first (filter (\<lambda>m. node_addr m \<noteq> a) ?xs))"
    using dk by (simp add: distinct_map_filter)
  moreover have "k \<notin> first ` set (filter (\<lambda>m. node_addr m \<noteq> a) ?xs)"
    using same_key by (auto simp: first_def node_addr_def)
  moreover have "cacheMap c k' = Some b \<longleftrightarrow>
      (\<exists>w. (b, k', w) \<in> set ((a, k, v') # filter (\<lambda>m. node_addr m \<noteq> a) ?xs))" for k' b
  proof
    assume "cacheMap c k' = Some b"
    then obtain w where w: "(b, k', w) \<in> set ?xs" using m by blast
    show "\<exists>w. (b, k', w) \<in> set ((a, k, v') # filter (\<lambda>m. node_addr m \<noteq> a) ?xs)"
    proof (cases "b = a")
      case True
      with w same_addr have "k' = k" by blast
      with True show ?thesis by auto
    next
      case False
      with w show ?thesis by (auto simp: node_addr_def)
    qed
  next
    assume "\<exists>w. (b, k', w) \<in> set ((a, k, v') # filter (\<lambda>m. node_addr m \<noteq> a) ?xs)"
    then have "(b = a \<and> k' = k) \<or> (\<exists>w. (b, k', w) \<in> set ?xs)" by auto
    then have "\<exists>w. (b, k', w) \<in> set ?xs" using assms(2) by blast
    then show "cacheMap c k' = Some b" using m by blast
  qed
  moreover have "a \<notin> node_addr ` set (filter (\<lambda>m. node_addr m \<noteq> a) ?xs)"
    by auto
  ultimately show ?thesis
    unfolding rep_inv_def by simp
qed

lemma get_hit_state:
  assumes "rep_inv c" "cacheMap c key = Some a"
  shows "\<exists>v. (a, key, v) \<in> set (cache_items c) \<and>
     get key val c = Some ((True, v),
       c\<lparr>cache_items := (a, key, v) # filter (\<lambda>m. node_addr m \<noteq> a) (cache_items c)\<rparr>)"
proof -
  from assms obtain v where v: "(a, key, v) \<in> set (cache_items c)"
    by (auto simp: rep_inv_def)
  moreover have "deref a (cache_items c) = Some (a, key, v)"
    using assms(1) v by (simp add: rep_inv_def deref_distinct)
  ultimately show ?thesis
    using assms(2) by (auto simp: get_def splice_begin_def deref_Cons_same second_def)
qed

lemma filter_assign:
  "filter (\<lambda>m. node_addr m \<noteq> a)
     (map (\<lambda>m. if node_addr m = a then (node_addr m, first m, val) else m) xs) =
   filter (\<lambda>m. node_addr m \<noteq> a) xs"
  by (induction xs) (auto simp: node_addr_def)

lemma addr_assign:
  "map node_addr (map (\<lambda>m. if node_addr m = a then (node_addr m, first m, val) else m) xs) =
   map node_addr xs"
  by (induction xs) (auto simp: node_addr_def)

lemma put_hit_state:
  assumes "rep_inv c" "cacheMap c key = Some a"
  shows "put key val c =
     Some (c\<lparr>cache_items := (a, key, val) # filter (\<lambda>m. node_addr m \<noteq> a) (cache_items c)\<rparr>)"
proof -
  let ?xs = "cache_items c"
  let ?f = "\<lambda>m. if node_addr m = a then (node_addr m, first m, val) else m"
  from assms obtain v where v: "(a, key, v) \<in> set ?xs"
    by (auto simp: rep_inv_def)
  have d: "deref a ?xs = Some (a, key, v)"
    using assms(1) v by (simp add: rep_inv_def deref_distinct)
  have addr: "map node_addr (map ?f ?xs) = map node_addr ?xs"
    by (rule addr_assign)
  have "(a, key, val) \<in> set (map ?f ?xs)"
    using v by (force simp: node_addr_def first_def)
  moreover have "distinct (map node_addr (map ?f ?xs))"
    unfolding addr using assms(1) by (simp add: rep_inv_def)
  ultimately have d2: "deref a (map ?f ?xs) = Some (a, key, val)"
    by (rule deref_distinct [rotated])
  have "filter (\<lambda>m. node_addr m \<noteq> a) (map ?f ?xs) = filter (\<lambda>m. node_addr m \<noteq> a) ?xs"
    by (rule filter_assign)
  then show ?thesis
    using assms(2) d d2 by (simp add: put_def assign_second_def splice_begin_def)
qed

lemma remove_hit_state:
  assumes "rep_inv c" "cacheMap c key = Some a"
  shows "remove key c =
     Some (c\<lparr>cache_items := filter (\<lambda>m. node_addr m \<noteq> a) (cache_items c),
             cacheMap := (cacheMap c)(key := None)\<rparr>)"
proof -
  from assms obtain v where v: "(a, key, v) \<in> set (cache_items c)"
    by (auto simp: rep_inv_def)
  have "deref a (cache_items c) = Some (a, key, v)"
    using assms(1) v by (simp add: rep_inv_def deref_distinct)
  then show ?thesis
    using assms(2) by (simp add: remove_def erase_def)
qed

lemma inv_erase:
  assumes "rep_inv c" "(a, k, v) \<in> set (cache_items c)"
  shows "rep_inv (c\<lparr>cache_items := filter (\<lambda>m. node_addr m \<noteq> a) (cache_items c),
             cacheMap := (cacheMap c)(k := None)\<rparr>)"
proof -
  let ?xs = "cache_items c"
  have da: "distinct (map node_addr ?xs)" and dk: "distinct (map first ?xs)"
    and m: "\<And>k a. cacheMap c k = Some a \<longleftrightarrow> (\<exists>v. (a, k, v) \<in> set ?xs)"
    using assms(1) by (auto simp: rep_inv_def)
  have same_key: "\<And>b w. (b, k, w) \<in> set ?xs \<Longrightarrow> b = a"
    using m assms(2) by (metis option.inject)
  have same_addr: "\<And>k' w. (a, k', w) \<in> set ?xs \<Longrightarrow> k' = k \<and> w = v"
    using da assms(2) deref_distinct by (metis Pair_inject option.inject)
  have "distinct (map node_addr (filter (\<lambda>m. node_addr m \<noteq> a) ?xs))"
    using da by (simp add: distinct_map_filter)
  moreover have "distinct (map first (filter (\<lambda>m. node_addr m \<noteq> a) ?xs))"
    using dk by (simp add: distinct_map_filter)
  moreover have "((cacheMap c)(k := None)) k' = Some b \<longleftrightarrow>
      (\<exists>w. (b, k', w) \<in> set (filter (\<lambda>m. node_addr m \<noteq> a) ?xs))" for k' b
  proof
    assume h: "((cacheMap c)(k := None)) k' = Some b"
    then have ne: "k' \<noteq> k" and "cacheMap c k' = Some b" by (auto split: if_splits)
    then obtain w where w: "(b, k', w) \<in> set ?xs" using m by blast
    with ne same_addr have "b \<noteq> a" by blast
    with w show "\<exists>w. (b, k', w) \<in> set (filter (\<lambda>m. node_addr m \<noteq> a) ?xs)"
      by (auto simp: node_addr_def)
  next
    assume "\<exists>w. (b, k', w) \<in> set (filter (\<lambda>m. node_addr m \<noteq> a) ?xs)"
    then obtain w where w: "(b, k', w) \<in> set ?xs" and ne: "b \<noteq> a"
      by (auto simp: node_addr_def)
    from w ne same_key have "k' \<noteq> k" by blast
    moreover from w have "cacheMap c k' = Some b" using m by blast
    ultimately show "((cacheMap c)(k := None)) k' = Some b" by simp
  qed
  ultimately show ?thesis
    by (simp add: rep_inv_def)
qed

lemma inv_insert_front:
  assumes "rep_inv c" "cacheMap c key = None"
  shows "rep_inv (insert_front key val c)"
proof -
  let ?xs = "cache_items c"
  have da: "distinct (map node_addr ?xs)" and dk: "distinct (map first ?xs)"
    and m: "\<And>k a. cacheMap c k = Some a \<longleftrightarrow> (\<exists>v. (a, k, v) \<in> set ?xs)"
    using assms(1) by (auto simp: rep_inv_def)
  have fresh: "new_node ?xs \<notin> node_addr ` set ?xs" by (rule new_node_notin)
  have nokey: "key \<notin> first ` set ?xs" using assms by (rule inv_absent)
  have nk: "\<And>b w. (b, key, w) \<notin> set ?xs"
    using nokey by (force simp: first_def)
  have na: "\<And>k w. (new_node ?xs, k, w) \<notin> set ?xs"
    using fresh by (force simp: node_addr_def)
  have "((cacheMap c)(key \<mapsto> new_node ?xs)) k' = Some b \<longleftrightarrow>
      (\<exists>w. (b, k', w) \<in> set ((new_node ?xs, key, val) # ?xs))" for k' b
  proof (cases "k' = key")
    case True
    then show ?thesis using nk by auto
  next
    case False
    then have "((cacheMap c)(key \<mapsto> new_node ?xs)) k' = Some b \<longleftrightarrow> (\<exists>w. (b, k', w) \<in> set ?xs)"
      using m by simp
    with False show ?thesis by auto
  qed
  then show ?thesis
    using da dk fresh nokey
    unfolding rep_inv_def insert_front_def emplace_front_def Let_def by simp
qed

lemma insert_front_fields:
  "cache_items (insert_front key val c) = (new_node (cache_items c), key, val) # cache_items c"
  "cacheMap (insert_front key val c) = (cacheMap c)(key \<mapsto> new_node (cache_items c))"
  "capacity (insert_front key val c) = capacity c"
  by (simp_all add: insert_front_def emplace_front_def Let_def)

lemma evict_if_over_state:
  "evict_if_over c =
     (if card (dom (cacheMap c)) > capacity c then
        (if cache_items c = [] then None
         else Some (c\<lparr>cache_items := butlast (cache_items c),
                cacheMap := (cacheMap c)(first (last (cache_items c)) := None)\<rparr>))
      else Some c)"
  by (simp add: evict_if_over_def prev_end_def pop_back_def)

lemma inv_evict:
  assumes "rep_inv c" "cache_items c \<noteq> []"
  shows "rep_inv (c\<lparr>cache_items := butlast (cache_items c),
                cacheMap := (cacheMap c)(first (last (cache_items c)) := None)\<rparr>)"
proof -
  let ?xs = "cache_items c"
  obtain a k v where n: "last ?xs = (a, k, v)" by (cases "last ?xs") auto
  have mem: "(a, k, v) \<in> set ?xs" using assms(2) n by (metis last_in_set)
  have da: "distinct (map node_addr ?xs)" using assms(1) by (simp add: rep_inv_def)
  have split: "?xs = butlast ?xs @ [(a, k, v)]" using assms(2) n by (metis append_butlast_last_id)
  have "distinct (map node_addr (butlast ?xs @ [(a, k, v)]))"
    using da split by simp
  then have "a \<notin> node_addr ` set (butlast ?xs)"
    by simp
  then have "filter (\<lambda>m. node_addr m \<noteq> a) (butlast ?xs) = butlast ?xs"
    by (auto simp: filter_id_conv)
  then have "filter (\<lambda>m. node_addr m \<noteq> a) ?xs = butlast ?xs"
    by (subst split) simp
  then show ?thesis
    using inv_erase [OF assms(1) mem] n by simp
qed

lemma put_miss_state:
  assumes "cacheMap c key = None"
  shows "put key val c =
    (let xs = (new_node (cache_items c), key, val) # cache_items c;
         m = (cacheMap c)(key \<mapsto> new_node (cache_items c))
     in if card (dom m) > capacity c
        then Some (c\<lparr>cache_items := butlast xs, cacheMap := m(first (last xs) := None)\<rparr>)
        else Some (c\<lparr>cache_items := xs, cacheMap := m\<rparr>))"
  using assms
  by (simp add: put_def evict_if_over_state insert_front_fields Let_def insert_front_def
      emplace_front_def)

lemma put_miss_inv:
  assumes "rep_inv c" "cacheMap c key = None"
  shows "\<exists>c'. put key val c = Some c' \<and> rep_inv c' \<and> capacity c' = capacity c \<and>
     length (cache_items c') \<le> max (capacity c) (length (cache_items c))"
proof -
  let ?i = "insert_front key val c"
  have inv: "rep_inv ?i" using assms by (rule inv_insert_front)
  have ne: "cache_items ?i \<noteq> []" by (simp add: insert_front_fields)
  have card: "card (dom (cacheMap ?i)) = Suc (length (cache_items c))"
    using inv_card [OF inv] by (simp add: insert_front_fields)
  show ?thesis
  proof (cases "card (dom (cacheMap ?i)) > capacity ?i")
    case True
    then have "put key val c = Some (?i\<lparr>cache_items := butlast (cache_items ?i),
                cacheMap := (cacheMap ?i)(first (last (cache_items ?i)) := None)\<rparr>)"
      using assms(2) ne by (simp add: put_def evict_if_over_state)
    moreover note inv_evict [OF inv ne]
    ultimately show ?thesis by (simp add: insert_front_fields)
  next
    case False
    then have "put key val c = Some ?i"
      using assms(2) by (simp add: put_def evict_if_over_state)
    then show ?thesis using inv False card by (simp add: insert_front_fields)
  qed
qed

lemma put_inv:
  assumes "rep_inv c"
  shows "\<exists>c'. put key val c = Some c' \<and> rep_inv c' \<and> capacity c' = capacity c \<and>
     length (cache_items c') \<le> max (capacity c) (length (cache_items c))"
proof (cases "cacheMap c key")
  case None
  with assms show ?thesis by (rule put_miss_inv)
next
  case (Some a)
  then obtain v where v: "(a, key, v) \<in> set (cache_items c)"
    using assms by (auto simp: rep_inv_def)
  have "length (filter (\<lambda>m. node_addr m \<noteq> a) (cache_items c)) < length (cache_items c)"
    using v by (intro length_filter_less [of "(a, key, v)"]) auto
  then show ?thesis
    using put_hit_state [OF assms Some] inv_move [OF assms v, of val] by auto
qed

lemma get_inv:
  assumes "rep_inv c"
  shows "\<exists>r c'. get key val c = Some (r, c') \<and> rep_inv c' \<and> capacity c' = capacity c \<and>
     length (cache_items c') = length (cache_items c)"
proof (cases "cacheMap c key")
  case None
  with assms show ?thesis by (auto simp: get_def)
next
  case (Some a)
  from get_hit_state [OF assms Some, of val] obtain v where v: "(a, key, v) \<in> set (cache_items c)"
    and g: "get key val c = Some ((True, v),
       c\<lparr>cache_items := (a, key, v) # filter (\<lambda>m. node_addr m \<noteq> a) (cache_items c)\<rparr>)"
    by blast
  let ?c' = "c\<lparr>cache_items := (a, key, v) # filter (\<lambda>m. node_addr m \<noteq> a) (cache_items c)\<rparr>"
  have i: "rep_inv ?c'" using assms v by (rule inv_move)
  have "card (dom (cacheMap ?c')) = length (cache_items ?c')" using i by (rule inv_card)
  then have "length (cache_items ?c') = length (cache_items c)"
    using inv_card [OF assms] by simp
  with g i show ?thesis by auto
qed

lemma remove_inv:
  assumes "rep_inv c"
  shows "\<exists>c'. remove key c = Some c' \<and> rep_inv c' \<and> capacity c' = capacity c \<and>
     length (cache_items c') \<le> length (cache_items c)"
proof (cases "cacheMap c key")
  case None
  with assms show ?thesis by (simp add: remove_def)
next
  case (Some a)
  then obtain v where v: "(a, key, v) \<in> set (cache_items c)"
    using assms by (auto simp: rep_inv_def)
  show ?thesis
    using remove_hit_state [OF assms Some] inv_erase [OF assms v] by simp
qed

text \<open>Every call returns, keeps the invariant and the capacity, and keeps the list within the capacity.\<close>

lemma step_inv:
  assumes "rep_inv c" "length (cache_items c) \<le> capacity c"
  shows "\<exists>c'. step x c = Some c' \<and> rep_inv c' \<and> capacity c' = capacity c \<and>
     length (cache_items c') \<le> capacity c'"
proof (cases x)
  case (Get k v)
  from get_inv [OF assms(1), of k v] show ?thesis using assms(2) Get by auto
next
  case (Put k v)
  from put_inv [OF assms(1), of k v] show ?thesis using assms(2) Put by auto
next
  case (Remove k)
  from remove_inv [OF assms(1), of k] show ?thesis using assms(2) Remove by auto
qed

lemma exec_inv:
  assumes "rep_inv c" "length (cache_items c) \<le> capacity c"
  shows "\<exists>c'. exec xs c = Some c' \<and> rep_inv c' \<and> capacity c' = capacity c \<and>
     length (cache_items c') \<le> capacity c'"
  using assms
proof (induction xs arbitrary: c)
  case Nil
  then show ?case by simp
next
  case (Cons x xs)
  from step_inv [OF Cons.prems, of x] obtain c1 where
    s: "step x c = Some c1" and i: "rep_inv c1" and cap: "capacity c1 = capacity c"
    and len: "length (cache_items c1) \<le> capacity c1" by blast
  from Cons.IH [OF i len] s cap show ?case by auto
qed

lemma exec_append:
  "exec (xs @ ys) c = (case exec xs c of None \<Rightarrow> None | Some c' \<Rightarrow> exec ys c')"
  by (induction xs arbitrary: c) (auto split: option.splits)

lemma exec_new:
  "\<exists>c. exec xs (new_LRUCache cap :: ('a, 'b) LRUCache) = Some c \<and> rep_inv c \<and> capacity c = cap \<and>
     length (cache_items c) \<le> cap"
proof -
  have "length (cache_items (new_LRUCache cap :: ('a, 'b) LRUCache)) \<le>
      capacity (new_LRUCache cap :: ('a, 'b) LRUCache)"
    by (simp add: new_LRUCache_def)
  from exec_inv [OF inv_new this, of xs] show ?thesis
    by (auto simp: new_LRUCache_def)
qed

lemma filter_addr_remove1:
  "distinct (map node_addr xs) \<Longrightarrow> (a, k, v) \<in> set xs \<Longrightarrow>
   filter (\<lambda>m. node_addr m \<noteq> a) xs = remove1 (a, k, v) xs"
proof (induction xs)
  case Nil
  then show ?case by simp
next
  case (Cons n xs)
  show ?case
  proof (cases "n = (a, k, v)")
    case True
    have "a \<notin> node_addr ` set xs" using Cons.prems(1) True by simp
    then have "filter (\<lambda>m. node_addr m \<noteq> a) xs = xs"
      by (auto simp: filter_id_conv)
    with True show ?thesis by simp
  next
    case False
    then have mem: "(a, k, v) \<in> set xs" using Cons.prems(2) by simp
    then have "a \<in> node_addr ` set xs" by force
    then have "node_addr n \<noteq> a" using Cons.prems(1) by auto
    moreover have "filter (\<lambda>m. node_addr m \<noteq> a) xs = remove1 (a, k, v) xs"
      using Cons.IH Cons.prems(1) mem by simp
    ultimately show ?thesis using False by simp
  qed
qed

lemma inv_entry_index: "rep_inv c \<Longrightarrow> (a, k, v) \<in> set (cache_items c) \<Longrightarrow> cacheMap c k = Some a"
  by (auto simp: rep_inv_def)

lemma inv_index_entry: "rep_inv c \<Longrightarrow> cacheMap c k = Some a \<Longrightarrow> \<exists>v. (a, k, v) \<in> set (cache_items c)"
  by (auto simp: rep_inv_def)

lemma addr_unique:
  "distinct (map node_addr xs) \<Longrightarrow> n \<in> set xs \<Longrightarrow> n' \<in> set xs \<Longrightarrow>
   node_addr n = node_addr n' \<Longrightarrow> n = n'"
  by (simp add: distinct_map inj_on_def)

lemma inv_same_key:
  assumes "rep_inv c" "(a, k, v) \<in> set (cache_items c)" "(b, k, w) \<in> set (cache_items c)"
  shows "b = a \<and> w = v"
proof -
  have "cacheMap c k = Some a" "cacheMap c k = Some b"
    using assms by (auto dest: inv_entry_index)
  then have ba: "b = a" by simp
  have "distinct (map node_addr (cache_items c))" using assms(1) by (simp add: rep_inv_def)
  from addr_unique [OF this assms(2) assms(3)] ba show ?thesis by simp
qed

lemma get_of_entry:
  assumes "rep_inv c" "(a, key, v) \<in> set (cache_items c)"
  shows "\<exists>c'. get key val c = Some ((True, v), c')"
proof -
  have i: "cacheMap c key = Some a" using assms by (rule inv_entry_index)
  from get_hit_state [OF assms(1) i, of val] obtain w where
    w: "(a, key, w) \<in> set (cache_items c)" and g: "\<exists>c'. get key val c = Some ((True, w), c')"
    by blast
  from inv_same_key [OF assms(1) assms(2) w] g show ?thesis by simp
qed

lemma last_put_append:
  "last_put key (xs @ ys) = (case last_put key ys of None \<Rightarrow> last_put key xs | Some w \<Rightarrow> Some w)"
proof (induction xs)
  case Nil
  then show ?case by (simp split: option.splits)
next
  case (Cons x xs)
  then show ?case by (cases x) (auto split: option.splits)
qed

lemma last_put_snoc:
  "last_put key (xs @ [Put k v]) = (if k = key then Some v else last_put key xs)"
  "last_put key (xs @ [Get k v]) = last_put key xs"
  "last_put key (xs @ [Remove k]) = last_put key xs"
  by (simp_all add: last_put_append)

text \<open>The entries of the list after a call: old entries, or the pair just put.\<close>

lemma get_entries:
  assumes "rep_inv c" "get key val c = Some (r, c')"
  shows "set (cache_items c') = set (cache_items c)"
proof (cases "cacheMap c key")
  case None
  with assms(2) show ?thesis by (simp add: get_def)
next
  case (Some a)
  from get_hit_state [OF assms(1) Some, of val] assms(2) obtain v where
    v: "(a, key, v) \<in> set (cache_items c)" and
    c': "c' = c\<lparr>cache_items := (a, key, v) # filter (\<lambda>m. node_addr m \<noteq> a) (cache_items c)\<rparr>"
    by auto
  have da: "distinct (map node_addr (cache_items c))" using assms(1) by (simp add: rep_inv_def)
  have "n \<in> set (cache_items c) \<Longrightarrow> node_addr n = a \<Longrightarrow> n = (a, key, v)" for n
    using addr_unique [OF da _ v, of n] by simp
  then have "set (cache_items c) \<subseteq> insert (a, key, v) (set (filter (\<lambda>m. node_addr m \<noteq> a) (cache_items c)))"
    by auto
  moreover have "insert (a, key, v) (set (filter (\<lambda>m. node_addr m \<noteq> a) (cache_items c))) \<subseteq> set (cache_items c)"
    using v by auto
  ultimately have "insert (a, key, v) (set (filter (\<lambda>m. node_addr m \<noteq> a) (cache_items c))) = set (cache_items c)"
    by (rule equalityI [rotated])
  then show ?thesis unfolding c' by simp
qed

lemma remove_entries:
  assumes "rep_inv c" "remove key c = Some c'"
  shows "set (cache_items c') \<subseteq> set (cache_items c)"
proof (cases "cacheMap c key")
  case None
  with assms(2) show ?thesis by (simp add: remove_def)
next
  case (Some a)
  from remove_hit_state [OF assms(1) Some] assms(2) show ?thesis by auto
qed

lemma put_entries:
  assumes "rep_inv c" "put key val c = Some c'" "(b, k, w) \<in> set (cache_items c')"
  shows "(k = key \<and> w = val) \<or> (k \<noteq> key \<and> (b, k, w) \<in> set (cache_items c))"
proof (cases "cacheMap c key")
  case None
  have nokey: "key \<notin> first ` set (cache_items c)" using assms(1) None by (rule inv_absent)
  let ?xs = "(new_node (cache_items c), key, val) # cache_items c"
  have "set (cache_items c') \<subseteq> set ?xs"
    using assms(2) None by (auto simp: put_miss_state Let_def split: if_splits dest: in_set_butlastD)
  with assms(3) have "(b, k, w) = (new_node (cache_items c), key, val) \<or> (b, k, w) \<in> set (cache_items c)"
    by auto
  then show ?thesis
  proof
    assume "(b, k, w) = (new_node (cache_items c), key, val)"
    then show ?thesis by simp
  next
    assume m: "(b, k, w) \<in> set (cache_items c)"
    then have "k \<in> first ` set (cache_items c)" by force
    with nokey have "k \<noteq> key" by auto
    with m show ?thesis by simp
  qed
next
  case (Some a)
  from inv_index_entry [OF assms(1) Some] obtain v where v: "(a, key, v) \<in> set (cache_items c)" ..
  from put_hit_state [OF assms(1) Some, of val] assms(2)
  have c': "c' = c\<lparr>cache_items := (a, key, val) # filter (\<lambda>m. node_addr m \<noteq> a) (cache_items c)\<rparr>"
    by simp
  from assms(3) have "(b, k, w) = (a, key, val) \<or> ((b, k, w) \<in> set (cache_items c) \<and> b \<noteq> a)"
    unfolding c' by auto
  then show ?thesis
  proof
    assume "(b, k, w) = (a, key, val)"
    then show ?thesis by simp
  next
    assume m: "(b, k, w) \<in> set (cache_items c) \<and> b \<noteq> a"
    then have "k \<noteq> key" using inv_same_key [OF assms(1) v, of b w] by auto
    with m show ?thesis by simp
  qed
qed

lemma exec_snoc:
  "exec (xs @ [x]) c = Some c' \<longleftrightarrow> (\<exists>c1. exec xs c = Some c1 \<and> step x c1 = Some c')"
  by (auto simp: exec_append split: option.splits)

lemma exec_last_put:
  "exec calls (new_LRUCache cap) = Some c \<Longrightarrow> (a, k, v) \<in> set (cache_items c) \<Longrightarrow>
   last_put k calls = Some v"
proof (induction calls arbitrary: c a k v rule: rev_induct)
  case Nil
  then show ?case by (auto simp: new_LRUCache_def)
next
  case (snoc x xs)
  from snoc.prems(1) obtain c1 where e: "exec xs (new_LRUCache cap) = Some c1"
    and s: "step x c1 = Some c" by (auto simp: exec_snoc)
  have i: "rep_inv c1" using exec_new [of xs cap] e by auto
  show ?case
  proof (cases x)
    case (Get key val)
    with s obtain r where "get key val c1 = Some (r, c)" by auto
    from get_entries [OF i this] snoc.prems(2) have "(a, k, v) \<in> set (cache_items c1)" by simp
    from snoc.IH [OF e this] Get show ?thesis by (simp add: last_put_snoc)
  next
    case (Put key val)
    with s have "put key val c1 = Some c" by simp
    from put_entries [OF i this snoc.prems(2)] show ?thesis
      using snoc.IH [OF e] Put by (auto simp: last_put_snoc)
  next
    case (Remove key)
    with s have "remove key c1 = Some c" by simp
    from remove_entries [OF i this] snoc.prems(2) have "(a, k, v) \<in> set (cache_items c1)" by auto
    from snoc.IH [OF e this] Remove show ?thesis by (simp add: last_put_snoc)
  qed
qed

lemma last_use_le: "last_use key xs \<le> length xs"
  by (induction xs) (auto split: nat.splits)

lemma last_use_snoc:
  "last_use key (xs @ [x]) = (if uses key x then length xs + 1 else last_use key xs)"
proof (induction xs)
  case Nil
  then show ?case by simp
next
  case (Cons y ys)
  then show ?case by (auto split: nat.splits)
qed

lemma recency_filter: "recency_ordered calls xs \<Longrightarrow> recency_ordered calls (filter P xs)"
  unfolding recency_ordered_def by (rule sorted_wrt_filter)

lemma recency_butlast: "recency_ordered calls xs \<Longrightarrow> recency_ordered calls (butlast xs)"
  unfolding recency_ordered_def by (simp add: butlast_conv_take sorted_wrt_take)

text \<open>A call that uses a key none of the entries has leaves their order as it is.\<close>

lemma recency_snoc_other:
  assumes "recency_ordered calls xs" "\<And>n. n \<in> set xs \<Longrightarrow> \<not> uses (first n) x"
  shows "recency_ordered (calls @ [x]) xs"
proof -
  have "sorted_wrt (\<lambda>n n'. last_use (first n') calls < last_use (first n) calls) xs"
    using assms(1) by (simp add: recency_ordered_def)
  then have "sorted_wrt (\<lambda>n n'. last_use (first n') (calls @ [x]) < last_use (first n) (calls @ [x])) xs"
    by (rule sorted_wrt_mono_rel [rotated]) (simp add: last_use_snoc assms(2))
  then show ?thesis by (simp add: recency_ordered_def)
qed

text \<open>The entry of the key that the call uses goes to the front.\<close>

lemma recency_snoc_front:
  assumes "recency_ordered calls xs" "uses k x" "\<And>n. n \<in> set xs \<Longrightarrow> first n \<noteq> k"
  shows "recency_ordered (calls @ [x]) ((a, k, v) # xs)"
proof -
  have other: "\<not> uses (first n) x" if "n \<in> set xs" for n
  proof -
    have "first n \<noteq> k" using assms(3) that by blast
    with assms(2) show ?thesis by (cases x) simp_all
  qed
  have "recency_ordered (calls @ [x]) xs"
    using assms(1) other by (rule recency_snoc_other)
  moreover have "last_use (first n) (calls @ [x]) < last_use k (calls @ [x])" if "n \<in> set xs" for n
    using other [OF that] assms(2) last_use_le [of "first n" calls]
    by (simp add: last_use_snoc)
  ultimately show ?thesis by (simp add: recency_ordered_def)
qed

lemma recency_last:
  assumes "recency_ordered calls xs" "n \<in> set (butlast xs)"
  shows "last_use (first (last xs)) calls < last_use (first n) calls"
proof -
  from assms(2) have ne: "xs \<noteq> []" by auto
  then have "xs = butlast xs @ [last xs]" by simp
  then have "sorted_wrt (\<lambda>n n'. last_use (first n') calls < last_use (first n) calls)
      (butlast xs @ [last xs])"
    using assms(1) by (simp add: recency_ordered_def)
  with assms(2) show ?thesis by (simp add: sorted_wrt_append)
qed

lemma filter_no_key:
  assumes "rep_inv c" "(a, key, v) \<in> set (cache_items c)"
    "n \<in> set (filter (\<lambda>m. node_addr m \<noteq> a) (cache_items c))"
  shows "first n \<noteq> key"
proof
  assume k: "first n = key"
  obtain b k' w where n: "n = (b, k', w)" by (cases n) auto
  with assms(3) k have "(b, key, w) \<in> set (cache_items c)" "b \<noteq> a" by auto
  with inv_same_key [OF assms(1) assms(2), of b w] show False by simp
qed

lemma absent_no_key:
  assumes "rep_inv c" "cacheMap c key = None" "n \<in> set (cache_items c)"
  shows "first n \<noteq> key"
  using inv_absent [OF assms(1,2)] assms(3) by auto

lemma step_recency:
  assumes "rep_inv c" "recency_ordered calls (cache_items c)" "step x c = Some c'"
  shows "recency_ordered (calls @ [x]) (cache_items c')"
proof (cases x)
  case (Get key val)
  show ?thesis
  proof (cases "cacheMap c key")
    case None
    with assms(3) Get have "c' = c" by (auto simp: get_def)
    moreover have "\<not> uses (first n) x" if "n \<in> set (cache_items c)" for n
      using absent_no_key [OF assms(1) None that] Get by simp
    ultimately show ?thesis using assms(2) by (simp add: recency_snoc_other)
  next
    case (Some a)
    from get_hit_state [OF assms(1) Some, of val] assms(3) Get obtain v where
      v: "(a, key, v) \<in> set (cache_items c)" and
      c': "cache_items c' = (a, key, v) # filter (\<lambda>m. node_addr m \<noteq> a) (cache_items c)"
      by auto
    have "recency_ordered calls (filter (\<lambda>m. node_addr m \<noteq> a) (cache_items c))"
      using assms(2) by (rule recency_filter)
    moreover have "uses key x" using Get by simp
    ultimately show ?thesis
      unfolding c' using filter_no_key [OF assms(1) v] by (rule recency_snoc_front)
  qed
next
  case (Put key val)
  have u: "uses key x" using Put by simp
  from assms(3) Put have p: "put key val c = Some c'" by simp
  show ?thesis
  proof (cases "cacheMap c key")
    case None
    let ?xs = "(new_node (cache_items c), key, val) # cache_items c"
    have r: "recency_ordered (calls @ [x]) ?xs"
      using assms(2) u absent_no_key [OF assms(1) None] by (rule recency_snoc_front)
    have "cache_items c' = ?xs \<or> cache_items c' = butlast ?xs"
      using p None by (auto simp: put_miss_state Let_def split: if_splits)
    then show ?thesis using r recency_butlast [OF r] by auto
  next
    case (Some a)
    from inv_index_entry [OF assms(1) Some] obtain v where v: "(a, key, v) \<in> set (cache_items c)" ..
    from put_hit_state [OF assms(1) Some, of val] p
    have c': "cache_items c' = (a, key, val) # filter (\<lambda>m. node_addr m \<noteq> a) (cache_items c)"
      by auto
    have "recency_ordered calls (filter (\<lambda>m. node_addr m \<noteq> a) (cache_items c))"
      using assms(2) by (rule recency_filter)
    then show ?thesis
      unfolding c' using u filter_no_key [OF assms(1) v] by (rule recency_snoc_front)
  qed
next
  case (Remove key)
  from assms(3) Remove have p: "remove key c = Some c'" by simp
  have "cache_items c' = cache_items c \<or>
      (\<exists>a. cache_items c' = filter (\<lambda>m. node_addr m \<noteq> a) (cache_items c))"
  proof (cases "cacheMap c key")
    case None
    with p show ?thesis by (simp add: remove_def)
  next
    case (Some a)
    from remove_hit_state [OF assms(1) Some] p show ?thesis by auto
  qed
  then have "recency_ordered calls (cache_items c')"
    using assms(2) recency_filter by auto
  then show ?thesis using Remove by (simp add: recency_snoc_other)
qed

lemma exec_recency:
  "exec calls (new_LRUCache cap) = Some c \<Longrightarrow> recency_ordered calls (cache_items c)"
proof (induction calls arbitrary: c rule: rev_induct)
  case Nil
  then show ?case by (auto simp: new_LRUCache_def recency_ordered_def)
next
  case (snoc x xs)
  from snoc.prems obtain c1 where e: "exec xs (new_LRUCache cap) = Some c1"
    and s: "step x c1 = Some c" by (auto simp: exec_snoc)
  have i: "rep_inv c1" using exec_new [of xs cap] e by auto
  from i snoc.IH [OF e] s show ?case by (rule step_recency)
qed

text \<open>The definitions to unfold when a sequence of calls is evaluated on concrete input.\<close>

lemmas ops_defs = put_def get_def remove_def evict_if_over_def insert_front_def emplace_front_def
  splice_begin_def assign_second_def erase_def deref_def prev_end_def pop_back_def new_node_def
  new_LRUCache_def size_cache_def Let_def

section \<open>Properties\<close>

text \<open>
  C3. A \<open>get\<close> of a key that is not in the cache returns false, leaves the caller's variable
  as it was, and returns the cache state unchanged: list, map and capacity.
\<close>

theorem get_miss_unchanged:
  "cacheMap c key = None \<Longrightarrow> get key val c = Some ((False, val), c)"
  by (simp add: get_def)

theorem get_miss_unchanged_witness:
  "cacheMap (new_LRUCache 2 :: (nat, nat) LRUCache) 7 = None \<and>
   get 7 0 (new_LRUCache 2 :: (nat, nat) LRUCache) = Some ((False, 0), new_LRUCache 2)"
  using get_miss_unchanged [of "new_LRUCache 2 :: (nat, nat) LRUCache" 7 0]
  by (simp add: new_LRUCache_def)

text \<open>
  C1. For a cache constructed with capacity at least 1, after any sequence of calls of
  \<open>get\<close>, \<open>put\<close> and \<open>remove\<close>, a further \<open>put\<close> returns and leaves at most capacity
  many entries.
\<close>

theorem capacity_invariant:
  assumes "1 \<le> cap"
  shows "\<exists>c c'. exec calls (new_LRUCache cap) = Some c \<and> put key val c = Some c' \<and>
     size_cache c' \<le> cap"
proof -
  from exec_new [of calls cap] obtain c :: "('a, 'b) LRUCache" where
    e: "exec calls (new_LRUCache cap) = Some c" and i: "rep_inv c" and
    cap: "capacity c = cap" and len: "length (cache_items c) \<le> cap" by blast
  from put_inv [OF i, of key val] obtain c' where p: "put key val c = Some c'" and
    i': "rep_inv c'" and len': "length (cache_items c') \<le> max (capacity c) (length (cache_items c))"
    by blast
  have "size_cache c' = length (cache_items c')"
    using inv_card [OF i'] by (simp add: size_cache_def)
  with len' cap len have "size_cache c' \<le> cap" by simp
  with e p show ?thesis by blast
qed

theorem capacity_invariant_witness:
  "(1::nat) \<le> 2 \<and>
   map_option size_cache
     (exec [Put (1::nat) (10::nat), Put 2 20, Get 1 0, Remove 5, Put 3 30, Put 4 40]
        (new_LRUCache 2)) = Some 2"
  using capacity_invariant [of 2 "[Put (1::nat) (10::nat), Put 2 20, Get 1 0, Remove 5, Put 3 30]" 4 40]
  by (simp add: ops_defs)

text \<open>
  C2. A \<open>put\<close> of a key that is not in the cache, in a state reached by a sequence of calls
  from a new cache: the new pair is inserted at the front with its map entry. If the list
  is then longer than the capacity, the entry at the back is erased from the map and from the
  list, and no other; its key is no longer in the list, and every entry that stays was used
  later in the sequence of calls than the erased one. With a capacity of at least 1 the erased
  entry is the back of the old list and the new pair stays at the front. Otherwise nothing
  is erased. With capacity 2, after put A, put B, get A, put C the key B misses and A and C
  are found.
\<close>

theorem put_absent_evicts_lru:
  "(exec calls (new_LRUCache cap) = Some c \<and> cacheMap c key = None \<longrightarrow>
      (let n = (new_node (cache_items c), key, val);
           xs = n # cache_items c;
           m = (cacheMap c)(key \<mapsto> node_addr n)
       in insert_front key val c = c\<lparr>cache_items := xs, cacheMap := m\<rparr> \<and>
          card (dom m) = length xs \<and>
          (if length xs > cap
           then put key val c =
                  Some (c\<lparr>cache_items := butlast xs, cacheMap := m(first (last xs) := None)\<rparr>) \<and>
                first (last xs) \<notin> first ` set (butlast xs) \<and>
                (\<forall>n' \<in> set (butlast xs).
                   last_use (first (last xs)) (calls @ [Put key val]) <
                   last_use (first n') (calls @ [Put key val])) \<and>
                (1 \<le> cap \<longrightarrow> cache_items c \<noteq> [] \<and> last xs = last (cache_items c) \<and>
                   butlast xs = n # butlast (cache_items c))
           else put key val c = Some (c\<lparr>cache_items := xs, cacheMap := m\<rparr>)))) \<and>
   (ka \<noteq> kb \<and> ka \<noteq> kc \<and> kb \<noteq> kc \<longrightarrow>
      (\<exists>s. exec [Put ka va, Put kb vb, Get ka x, Put kc vc] (new_LRUCache 2) = Some s \<and>
         size_cache s = 2 \<and>
         get kb y s = Some ((False, y), s) \<and>
         (\<exists>s'. get ka y s = Some ((True, va), s')) \<and>
         (\<exists>s'. get kc y s = Some ((True, vc), s'))))"
proof (intro conjI impI)
  assume h: "exec calls (new_LRUCache cap) = Some c \<and> cacheMap c key = None"
  then have e: "exec calls (new_LRUCache cap) = Some c" and none: "cacheMap c key = None"
    by simp_all
  have i: "rep_inv c" and cap: "capacity c = cap" and len: "length (cache_items c) \<le> cap"
    using exec_new [of calls cap] e by auto
  let ?n = "(new_node (cache_items c), key, val)"
  let ?xs = "?n # cache_items c"
  let ?m = "(cacheMap c)(key \<mapsto> new_node (cache_items c))"
  have ins: "insert_front key val c = c\<lparr>cache_items := ?xs, cacheMap := ?m\<rparr>"
    by (simp add: insert_front_def emplace_front_def Let_def)
  have i1: "rep_inv (insert_front key val c)" using i none by (rule inv_insert_front)
  have card: "card (dom ?m) = length ?xs"
    using inv_card [OF i1] by (simp add: insert_front_fields)
  have dk: "distinct (map first ?xs)"
    using i1 by (simp add: rep_inv_def insert_front_fields)
  have "?xs = butlast ?xs @ [last ?xs]" by simp
  then have "distinct (map first (butlast ?xs @ [last ?xs]))" using dk by simp
  then have gone: "first (last ?xs) \<notin> first ` set (butlast ?xs)" by simp
  have r0: "recency_ordered calls (cache_items c)" using e by (rule exec_recency)
  have "uses key (Put key val)" by simp
  with r0 have r: "recency_ordered (calls @ [Put key val]) ?xs"
    using absent_no_key [OF i none] by (rule recency_snoc_front)
  have lru: "\<forall>n' \<in> set (butlast ?xs).
       last_use (first (last ?xs)) (calls @ [Put key val]) <
       last_use (first n') (calls @ [Put key val])"
    using recency_last [OF r] by blast
  have over: "put key val c =
      Some (c\<lparr>cache_items := butlast ?xs, cacheMap := ?m(first (last ?xs) := None)\<rparr>)"
    if "length ?xs > cap"
    using that none card cap by (simp add: put_miss_state Let_def)
  have under: "put key val c = Some (c\<lparr>cache_items := ?xs, cacheMap := ?m\<rparr>)"
    if "\<not> length ?xs > cap"
    using that none card cap by (simp add: put_miss_state Let_def)
  have old: "cache_items c \<noteq> [] \<and> last ?xs = last (cache_items c) \<and>
      butlast ?xs = ?n # butlast (cache_items c)"
    if "length ?xs > cap" "1 \<le> cap"
    using that by auto
  show "let n = (new_node (cache_items c), key, val);
           xs = n # cache_items c;
           m = (cacheMap c)(key \<mapsto> node_addr n)
       in insert_front key val c = c\<lparr>cache_items := xs, cacheMap := m\<rparr> \<and>
          card (dom m) = length xs \<and>
          (if length xs > cap
           then put key val c =
                  Some (c\<lparr>cache_items := butlast xs, cacheMap := m(first (last xs) := None)\<rparr>) \<and>
                first (last xs) \<notin> first ` set (butlast xs) \<and>
                (\<forall>n' \<in> set (butlast xs).
                   last_use (first (last xs)) (calls @ [Put key val]) <
                   last_use (first n') (calls @ [Put key val])) \<and>
                (1 \<le> cap \<longrightarrow> cache_items c \<noteq> [] \<and> last xs = last (cache_items c) \<and>
                   butlast xs = n # butlast (cache_items c))
           else put key val c = Some (c\<lparr>cache_items := xs, cacheMap := m\<rparr>))"
    unfolding Let_def node_sel
  proof (intro conjI)
    show "insert_front key val c = c\<lparr>cache_items := ?xs, cacheMap := ?m\<rparr>" by (rule ins)
    show "card (dom ?m) = length ?xs" by (rule card)
    show "if length ?xs > cap
           then put key val c =
                  Some (c\<lparr>cache_items := butlast ?xs, cacheMap := ?m(first (last ?xs) := None)\<rparr>) \<and>
                first (last ?xs) \<notin> first ` set (butlast ?xs) \<and>
                (\<forall>n' \<in> set (butlast ?xs).
                   last_use (first (last ?xs)) (calls @ [Put key val]) <
                   last_use (first n') (calls @ [Put key val])) \<and>
                (1 \<le> cap \<longrightarrow> cache_items c \<noteq> [] \<and> last ?xs = last (cache_items c) \<and>
                   butlast ?xs = ?n # butlast (cache_items c))
           else put key val c = Some (c\<lparr>cache_items := ?xs, cacheMap := ?m\<rparr>)"
    proof (cases "length ?xs > cap")
      case True
      with over [OF True] gone lru old [OF True] show ?thesis by presburger
    next
      case False
      with under [OF False] show ?thesis by presburger
    qed
  qed
next
  assume "ka \<noteq> kb \<and> ka \<noteq> kc \<and> kb \<noteq> kc"
  then have "ka \<noteq> kb" "ka \<noteq> kc" "kb \<noteq> kc" "kb \<noteq> ka" "kc \<noteq> ka" "kc \<noteq> kb"
    by auto
  then show "\<exists>s. exec [Put ka va, Put kb vb, Get ka x, Put kc vc] (new_LRUCache 2) = Some s \<and>
         size_cache s = 2 \<and>
         get kb y s = Some ((False, y), s) \<and>
         (\<exists>s'. get ka y s = Some ((True, va), s')) \<and>
         (\<exists>s'. get kc y s = Some ((True, vc), s'))"
    by (simp add: ops_defs)
qed

theorem put_absent_evicts_lru_witness:
  "exec [Put (1::nat) (10::nat), Put 2 20, Get 1 0] (new_LRUCache 2) =
     Some \<lparr>capacity = 2, cache_items = [(1, 1, 10), (2, 2, 20)], cacheMap = [1 \<mapsto> 1, 2 \<mapsto> 2]\<rparr> \<and>
   cacheMap \<lparr>capacity = 2, cache_items = [(1, 1::nat, 10::nat), (2, 2, 20)],
             cacheMap = [1 \<mapsto> 1, 2 \<mapsto> 2]\<rparr> 3 = None \<and>
   map_option cache_items
     (put 3 30 \<lparr>capacity = 2, cache_items = [(1, 1::nat, 10::nat), (2, 2, 20)],
                 cacheMap = [1 \<mapsto> 1, 2 \<mapsto> 2]\<rparr>) = Some [(3, 3, 30), (1, 1, 10)] \<and>
   last_use (2::nat) [Put (1::nat) (10::nat), Put 2 20, Get 1 0, Put 3 30] = 2 \<and>
   last_use (1::nat) [Put (1::nat) (10::nat), Put 2 20, Get 1 0, Put 3 30] = 3 \<and>
   (1::nat) \<noteq> 2 \<and> (1::nat) \<noteq> 3 \<and> (2::nat) \<noteq> 3 \<and>
   map_option size_cache
     (exec [Put (1::nat) (10::nat), Put 2 20, Get 1 0, Put 3 30] (new_LRUCache 2)) = Some 2"
  using put_absent_evicts_lru [of "[Put (1::nat) (10::nat), Put 2 20, Get 1 0]" 2
      "\<lparr>capacity = 2, cache_items = [(1, 1, 10), (2, 2, 20)], cacheMap = [1 \<mapsto> 1, 2 \<mapsto> 2]\<rparr>"
      3 30 "1::nat" "2::nat" "3::nat" "10::nat" 20 0 30 0]
  by (simp add: ops_defs numeral_2_eq_2 numeral_3_eq_3)


text \<open>
  C4. A \<open>get\<close> of a key that is in the cache, in a state reached by a sequence of calls from a
  new cache: it returns true with the value of the latest \<open>put\<close> of that key, which is the
  value in the key's entry. The entry, unchanged, is moved to the front of the list; the other
  entries keep their order; map and capacity are as before, and so are the set of entries and
  the size.
\<close>

theorem get_hit_moves_to_front:
  assumes "exec calls (new_LRUCache cap) = Some c" "cacheMap c key = Some a"
  shows "\<exists>v c'. last_put key calls = Some v \<and> (a, key, v) \<in> set (cache_items c) \<and>
     get key val c = Some ((True, v), c') \<and>
     c' = c\<lparr>cache_items := (a, key, v) # remove1 (a, key, v) (cache_items c)\<rparr> \<and>
     set (cache_items c') = set (cache_items c) \<and>
     size_cache c' = size_cache c"
proof -
  have i: "rep_inv c" using exec_new [of calls cap] assms(1) by auto
  from get_hit_state [OF i assms(2), of val] obtain v where
    v: "(a, key, v) \<in> set (cache_items c)" and
    g: "get key val c = Some ((True, v),
       c\<lparr>cache_items := (a, key, v) # filter (\<lambda>m. node_addr m \<noteq> a) (cache_items c)\<rparr>)"
    by blast
  have da: "distinct (map node_addr (cache_items c))" using i by (simp add: rep_inv_def)
  have f: "filter (\<lambda>m. node_addr m \<noteq> a) (cache_items c) = remove1 (a, key, v) (cache_items c)"
    using da v by (rule filter_addr_remove1)
  have lp: "last_put key calls = Some v" using assms(1) v by (rule exec_last_put)
  have "set (cache_items c) = insert (a, key, v) (set (remove1 (a, key, v) (cache_items c)))"
    using get_entries [OF i g] f by simp
  with lp v g f show ?thesis by (simp add: size_cache_def)
qed

theorem get_hit_moves_to_front_witness:
  "exec [Put (1::nat) (10::nat), Put 2 20, Put 1 11] (new_LRUCache 2) =
     Some \<lparr>capacity = 2, cache_items = [(1, 1, 11), (2, 2, 20)], cacheMap = [1 \<mapsto> 1, 2 \<mapsto> 2]\<rparr> \<and>
   get 2 0 \<lparr>capacity = 2, cache_items = [(1, 1::nat, 11::nat), (2, 2, 20)],
             cacheMap = [1 \<mapsto> 1, 2 \<mapsto> 2]\<rparr> =
     Some ((True, 20), \<lparr>capacity = 2, cache_items = [(2, 2, 20), (1, 1, 11)],
                         cacheMap = [1 \<mapsto> 1, 2 \<mapsto> 2]\<rparr>) \<and>
   last_put (2::nat) [Put (1::nat) (10::nat), Put 2 20, Put 1 11] = Some 20"
  using get_hit_moves_to_front [of "[Put (1::nat) (10::nat), Put 2 20, Put 1 11]" 2
      "\<lparr>capacity = 2, cache_items = [(1, 1, 11), (2, 2, 20)], cacheMap = [1 \<mapsto> 1, 2 \<mapsto> 2]\<rparr>"
      2 2 0]
  by (simp add: ops_defs numeral_2_eq_2 numeral_3_eq_3)

text \<open>
  C5. A \<open>put\<close> of a key that is in the cache, in any state that satisfies the invariant: the
  value of the key's entry is overwritten and the entry is moved to the front; the other
  entries keep key, value and order; nothing is erased: map, capacity and size are as before.
  With capacity 2, after put A, put B, put A with a new value the size is 2, A is found with
  the new value and B with its value.
\<close>

theorem put_present_updates_in_place:
  "(rep_inv c \<and> cacheMap c key = Some a \<longrightarrow>
      (\<exists>v c'. (a, key, v) \<in> set (cache_items c) \<and>
         put key val c = Some c' \<and>
         c' = c\<lparr>cache_items := (a, key, val) # remove1 (a, key, v) (cache_items c)\<rparr> \<and>
         length (cache_items c') = length (cache_items c) \<and>
         size_cache c' = size_cache c)) \<and>
   (ka \<noteq> kb \<longrightarrow>
      (\<exists>s. exec [Put ka va, Put kb vb, Put ka va'] (new_LRUCache 2) = Some s \<and>
         size_cache s = 2 \<and>
         (\<exists>s'. get ka y s = Some ((True, va'), s')) \<and>
         (\<exists>s'. get kb y s = Some ((True, vb), s'))))"
proof (intro conjI impI)
  assume h: "rep_inv c \<and> cacheMap c key = Some a"
  then have i: "rep_inv c" and some: "cacheMap c key = Some a" by simp_all
  from inv_index_entry [OF i some] obtain v where v: "(a, key, v) \<in> set (cache_items c)" ..
  have da: "distinct (map node_addr (cache_items c))" using i by (simp add: rep_inv_def)
  have f: "filter (\<lambda>m. node_addr m \<noteq> a) (cache_items c) = remove1 (a, key, v) (cache_items c)"
    using da v by (rule filter_addr_remove1)
  have "length (remove1 (a, key, v) (cache_items c)) = length (cache_items c) - 1"
    using v by (simp add: length_remove1)
  moreover have "0 < length (cache_items c)" using v by (cases "cache_items c") auto
  ultimately have "length ((a, key, val) # remove1 (a, key, v) (cache_items c)) = length (cache_items c)"
    by simp
  with put_hit_state [OF i some, of val] v f
  show "\<exists>v c'. (a, key, v) \<in> set (cache_items c) \<and>
         put key val c = Some c' \<and>
         c' = c\<lparr>cache_items := (a, key, val) # remove1 (a, key, v) (cache_items c)\<rparr> \<and>
         length (cache_items c') = length (cache_items c) \<and>
         size_cache c' = size_cache c"
    by (auto simp: size_cache_def)
next
  assume "ka \<noteq> kb"
  then have "ka \<noteq> kb" "kb \<noteq> ka" by auto
  then show "\<exists>s. exec [Put ka va, Put kb vb, Put ka va'] (new_LRUCache 2) = Some s \<and>
         size_cache s = 2 \<and>
         (\<exists>s'. get ka y s = Some ((True, va'), s')) \<and>
         (\<exists>s'. get kb y s = Some ((True, vb), s'))"
    by (simp add: ops_defs)
qed

theorem put_present_updates_in_place_witness:
  "rep_inv \<lparr>capacity = 2, cache_items = [(1, 1::nat, 10::nat), (2, 2, 20)],
            cacheMap = [1 \<mapsto> 1, 2 \<mapsto> 2]\<rparr> \<and>
   cacheMap \<lparr>capacity = 2, cache_items = [(1, 1::nat, 10::nat), (2, 2, 20)],
            cacheMap = [1 \<mapsto> 1, 2 \<mapsto> 2]\<rparr> 2 = Some 2 \<and>
   put 2 21 \<lparr>capacity = 2, cache_items = [(1, 1::nat, 10::nat), (2, 2, 20)],
            cacheMap = [1 \<mapsto> 1, 2 \<mapsto> 2]\<rparr> =
     Some \<lparr>capacity = 2, cache_items = [(2, 2, 21), (1, 1, 10)], cacheMap = [1 \<mapsto> 1, 2 \<mapsto> 2]\<rparr> \<and>
   (1::nat) \<noteq> 2 \<and>
   map_option size_cache (exec [Put (1::nat) (10::nat), Put 2 20, Put 1 11] (new_LRUCache 2)) = Some 2"
  using put_present_updates_in_place [of
      "\<lparr>capacity = 2, cache_items = [(1, 1::nat, 10::nat), (2, 2, 20)], cacheMap = [1 \<mapsto> 1, 2 \<mapsto> 2]\<rparr>"
      2 2 21 "1::nat" "2::nat" "10::nat" 20 11 0]
  by (auto simp: ops_defs rep_inv_def numeral_2_eq_2 numeral_3_eq_3)

text \<open>
  C6. In any state that satisfies the invariant, \<open>remove\<close> of a key that is in the cache
  erases the key's entry from the list and the key from the map, after which no entry of the list
  has that key; \<open>remove\<close> of a key that is not in the cache returns the state as it is, with no
  error. A second \<open>remove\<close> of the same key changes nothing more.
\<close>

theorem remove_erases_or_noop:
  assumes "rep_inv c"
  shows "(cacheMap c key = None \<longrightarrow> remove key c = Some c) \<and>
     (\<forall>a. cacheMap c key = Some a \<longrightarrow>
        (\<exists>v. (a, key, v) \<in> set (cache_items c) \<and>
           remove key c =
             Some (c\<lparr>cache_items := remove1 (a, key, v) (cache_items c),
                     cacheMap := (cacheMap c)(key := None)\<rparr>) \<and>
           key \<notin> first ` set (remove1 (a, key, v) (cache_items c)) \<and>
           length (remove1 (a, key, v) (cache_items c)) = length (cache_items c) - 1)) \<and>
     (\<exists>c'. remove key c = Some c' \<and> remove key c' = Some c' \<and> cacheMap c' key = None)"
proof (intro conjI allI impI)
  assume "cacheMap c key = None"
  then show "remove key c = Some c" by (simp add: remove_def)
next
  fix a
  assume some: "cacheMap c key = Some a"
  from inv_index_entry [OF assms some] obtain v where v: "(a, key, v) \<in> set (cache_items c)" ..
  have da: "distinct (map node_addr (cache_items c))" using assms by (simp add: rep_inv_def)
  have f: "filter (\<lambda>m. node_addr m \<noteq> a) (cache_items c) = remove1 (a, key, v) (cache_items c)"
    using da v by (rule filter_addr_remove1)
  have "key \<notin> first ` set (filter (\<lambda>m. node_addr m \<noteq> a) (cache_items c))"
    using filter_no_key [OF assms v] by blast
  then have "key \<notin> first ` set (remove1 (a, key, v) (cache_items c))"
    unfolding f .
  moreover have "length (remove1 (a, key, v) (cache_items c)) = length (cache_items c) - 1"
    using v by (simp add: length_remove1)
  moreover have "remove key c =
             Some (c\<lparr>cache_items := remove1 (a, key, v) (cache_items c),
                     cacheMap := (cacheMap c)(key := None)\<rparr>)"
    using remove_hit_state [OF assms some] f by simp
  ultimately show "\<exists>v. (a, key, v) \<in> set (cache_items c) \<and>
           remove key c =
             Some (c\<lparr>cache_items := remove1 (a, key, v) (cache_items c),
                     cacheMap := (cacheMap c)(key := None)\<rparr>) \<and>
           key \<notin> first ` set (remove1 (a, key, v) (cache_items c)) \<and>
           length (remove1 (a, key, v) (cache_items c)) = length (cache_items c) - 1"
    using v by blast
next
  show "\<exists>c'. remove key c = Some c' \<and> remove key c' = Some c' \<and> cacheMap c' key = None"
  proof (cases "cacheMap c key")
    case None
    then show ?thesis by (simp add: remove_def)
  next
    case (Some a)
    from remove_hit_state [OF assms Some] show ?thesis by (simp add: remove_def)
  qed
qed

theorem remove_erases_or_noop_witness:
  "rep_inv \<lparr>capacity = 2, cache_items = [(1, 1::nat, 10::nat), (2, 2, 20)],
            cacheMap = [1 \<mapsto> 1, 2 \<mapsto> 2]\<rparr> \<and>
   remove 1 \<lparr>capacity = 2, cache_items = [(1, 1::nat, 10::nat), (2, 2, 20)],
            cacheMap = [1 \<mapsto> 1, 2 \<mapsto> 2]\<rparr> =
     Some \<lparr>capacity = 2, cache_items = [(2, 2, 20)], cacheMap = [1 \<mapsto> 1, 2 \<mapsto> 2](1 := None)\<rparr> \<and>
   remove 1 \<lparr>capacity = 2, cache_items = [(2, 2::nat, 20::nat)],
            cacheMap = [1 \<mapsto> 1, 2 \<mapsto> 2](1 := None)\<rparr> =
     Some \<lparr>capacity = 2, cache_items = [(2, 2, 20)], cacheMap = [1 \<mapsto> 1, 2 \<mapsto> 2](1 := None)\<rparr>"
  using remove_erases_or_noop [of
      "\<lparr>capacity = 2, cache_items = [(1, 1::nat, 10::nat), (2, 2, 20)], cacheMap = [1 \<mapsto> 1, 2 \<mapsto> 2]\<rparr>"
      1]
  by (auto simp: ops_defs rep_inv_def numeral_2_eq_2 numeral_3_eq_3)

text \<open>
  C7. In any state that satisfies the invariant, with a capacity of at least 1, a \<open>put\<close>
  of a key and a value returns, and a \<open>get\<close> of the key right after it returns true and that
  value.
\<close>

theorem put_then_get:
  assumes "rep_inv c" "1 \<le> capacity c"
  shows "\<exists>c' c''. put key val c = Some c' \<and> get key x c' = Some ((True, val), c'')"
proof -
  from put_inv [OF assms(1), of key val] obtain c' where p: "put key val c = Some c'"
    and i': "rep_inv c'" by blast
  have "\<exists>a. (a, key, val) \<in> set (cache_items c')"
  proof (cases "cacheMap c key")
    case None
    let ?n = "(new_node (cache_items c), key, val)"
    let ?xs = "?n # cache_items c"
    have i1: "rep_inv (insert_front key val c)" using assms(1) None by (rule inv_insert_front)
    have card: "card (dom ((cacheMap c)(key \<mapsto> new_node (cache_items c)))) = length ?xs"
      using inv_card [OF i1] by (simp add: insert_front_fields)
    have "cache_items c' = ?xs \<or> (length ?xs > capacity c \<and> cache_items c' = butlast ?xs)"
      using p None card by (auto simp: put_miss_state Let_def split: if_splits)
    then show ?thesis
    proof
      assume "cache_items c' = ?xs"
      then show ?thesis by auto
    next
      assume b: "length ?xs > capacity c \<and> cache_items c' = butlast ?xs"
      with assms(2) have "cache_items c \<noteq> []" by auto
      with b have "cache_items c' = ?n # butlast (cache_items c)" by simp
      then show ?thesis by auto
    qed
  next
    case (Some a)
    from put_hit_state [OF assms(1) Some, of val] p show ?thesis by auto
  qed
  then obtain a where "(a, key, val) \<in> set (cache_items c')" ..
  from get_of_entry [OF i' this, of x] p show ?thesis by blast
qed

theorem put_then_get_witness:
  "rep_inv \<lparr>capacity = 1, cache_items = [(1, 1::nat, 10::nat)], cacheMap = [1 \<mapsto> 1]\<rparr> \<and>
   1 \<le> capacity \<lparr>capacity = 1, cache_items = [(1, 1::nat, 10::nat)], cacheMap = [1 \<mapsto> 1]\<rparr> \<and>
   map_option cache_items
     (put 2 20 \<lparr>capacity = 1, cache_items = [(1, 1::nat, 10::nat)], cacheMap = [1 \<mapsto> 1]\<rparr>) =
     Some [(2, 2, 20)] \<and>
   map_option fst
     (Option.bind
        (put 2 20 \<lparr>capacity = 1, cache_items = [(1, 1::nat, 10::nat)], cacheMap = [1 \<mapsto> 1]\<rparr>)
        (get 2 0)) = Some (True, 20)"
  using put_then_get [of
      "\<lparr>capacity = 1, cache_items = [(1, 1::nat, 10::nat)], cacheMap = [1 \<mapsto> 1]\<rparr>" 2 20 0]
  by (auto simp: ops_defs rep_inv_def numeral_2_eq_2 numeral_3_eq_3)

text \<open>
  C8. After any sequence of calls on a new cache with a capacity of at least 1, every call has
  returned; a key is in the map exactly when an entry of the list has that key, and the map
  sends it to the address of that entry; map and list have the same number of elements, which
  is what \<open>size\<close> returns, and it is at most the capacity.
\<close>

theorem index_and_list_agree:
  assumes "1 \<le> cap"
  shows "\<exists>c. exec calls (new_LRUCache cap) = Some c \<and>
     (\<forall>k. k \<in> dom (cacheMap c) \<longleftrightarrow> k \<in> first ` set (cache_items c)) \<and>
     (\<forall>k a. cacheMap c k = Some a \<longleftrightarrow> (\<exists>v. (a, k, v) \<in> set (cache_items c))) \<and>
     card (dom (cacheMap c)) = length (cache_items c) \<and>
     size_cache c = length (cache_items c) \<and>
     0 \<le> size_cache c \<and> size_cache c \<le> cap \<and> capacity c = cap"
proof -
  from exec_new [of calls cap] obtain c :: "('a, 'b) LRUCache" where
    e: "exec calls (new_LRUCache cap) = Some c" and i: "rep_inv c" and
    cap: "capacity c = cap" and len: "length (cache_items c) \<le> cap" by blast
  have "\<forall>k. k \<in> dom (cacheMap c) \<longleftrightarrow> k \<in> first ` set (cache_items c)"
    using inv_keys [OF i] by simp
  moreover have "\<forall>k a. cacheMap c k = Some a \<longleftrightarrow> (\<exists>v. (a, k, v) \<in> set (cache_items c))"
    using i by (simp add: rep_inv_def)
  moreover have "card (dom (cacheMap c)) = length (cache_items c)" using i by (rule inv_card)
  ultimately show ?thesis using e cap len by (simp add: size_cache_def)
qed

theorem index_and_list_agree_witness:
  "(1::nat) \<le> 2 \<and>
   exec [Put (1::nat) (10::nat), Put 2 20, Get 1 0, Put 3 30, Remove 1, Remove 7] (new_LRUCache 2) =
     Some \<lparr>capacity = 2, cache_items = [(3, 3, 30)],
            cacheMap = [1 \<mapsto> 1, 2 \<mapsto> 2, 3 \<mapsto> 3](2 := None, 1 := None)\<rparr> \<and>
   map_option size_cache
     (exec [Put (1::nat) (10::nat), Put 2 20, Get 1 0, Put 3 30, Remove 1, Remove 7]
        (new_LRUCache 2)) = Some 1"
  using index_and_list_agree [of 2
      "[Put (1::nat) (10::nat), Put 2 20, Get 1 0, Put 3 30, Remove 1, Remove 7]"]
  by (auto simp: ops_defs numeral_2_eq_2 numeral_3_eq_3)

text \<open>
  C10. The constructor takes capacity 0 as it is. On such a cache a \<open>put\<close> inserts the pair
  at the front, finds one entry over the capacity, and erases the back of the list, which is
  the pair just inserted: the step back from the end of the list is on a list of one node.
  Every sequence of calls returns and ends in the empty cache, where the size is 0 and every
  \<open>get\<close> returns false.
\<close>

theorem capacity_zero_evicts_every_put:
  "capacity (new_LRUCache 0 :: ('k, 'v) LRUCache) = 0 \<and>
   exec calls (new_LRUCache 0) = Some (new_LRUCache 0 :: ('k, 'v) LRUCache) \<and>
   cache_items (insert_front key val (new_LRUCache 0 :: ('k, 'v) LRUCache)) = [(1, key, val)] \<and>
   size_cache (insert_front key val (new_LRUCache 0 :: ('k, 'v) LRUCache)) = 1 \<and>
   prev_end (cache_items (insert_front key val (new_LRUCache 0 :: ('k, 'v) LRUCache))) =
     Some (1, key, val) \<and>
   evict_if_over (insert_front key val (new_LRUCache 0 :: ('k, 'v) LRUCache)) =
     Some (new_LRUCache 0) \<and>
   put key val (new_LRUCache 0 :: ('k, 'v) LRUCache) = Some (new_LRUCache 0) \<and>
   size_cache (new_LRUCache 0 :: ('k, 'v) LRUCache) = 0 \<and>
   get key x (new_LRUCache 0 :: ('k, 'v) LRUCache) = Some ((False, x), new_LRUCache 0)"
proof -
  have s: "step c (new_LRUCache 0 :: ('k, 'v) LRUCache) = Some (new_LRUCache 0)" for c
    by (cases c) (simp_all add: ops_defs)
  have "exec calls (new_LRUCache 0) = Some (new_LRUCache 0 :: ('k, 'v) LRUCache)"
    by (induction calls) (simp_all add: s)
  then show ?thesis by (simp add: ops_defs)
qed

end
